theory Spec2Isabelle
  imports Main "HOL-Library.Char_ord" "HOL-Library.List_Lexorder" "HOL-Library.Product_Lexorder"
begin

chapter \<open>The model\<close>

section \<open>Assertions: \<open>ASSERT_TEMPLATE_EXT\<close> (cutest.h, lines 1118-1130)\<close>

text \<open>
  The comparison operator \<open>OP\<close> that an assertion family pastes between the result of
  \<open>cutest_internal_compare\<close> and \<open>0\<close>: \<open>ASSERT_EQ_*\<close> pass \<open>==\<close>, \<open>ASSERT_NE_*\<close> pass
  \<open>!=\<close>, and so on for the four orderings.
\<close>

datatype cmp_op = OP_EQ | OP_NE | OP_LT | OP_LE | OP_GT | OP_GE

text \<open>The C condition \<open>c OP 0\<close> on the \<open>int\<close> that the comparison returned.\<close>

fun op_holds :: "cmp_op \<Rightarrow> int \<Rightarrow> bool" where
  "op_holds OP_EQ c = (c = 0)"
| "op_holds OP_NE c = (c \<noteq> 0)"
| "op_holds OP_LT c = (c < 0)"
| "op_holds OP_LE c = (c \<le> 0)"
| "op_holds OP_GT c = (c > 0)"
| "op_holds OP_GE c = (c \<ge> 0)"

text \<open>The stringification \<open>#OP\<close> handed to \<open>cutest_internal_dump\<close>.\<close>

fun op_text :: "cmp_op \<Rightarrow> string" where
  "op_text OP_EQ = ''==''"
| "op_text OP_NE = ''!=''"
| "op_text OP_LT = ''<''"
| "op_text OP_LE = ''<=''"
| "op_text OP_GT = ''>''"
| "op_text OP_GE = ''>=''"

text \<open>
  What one expansion of the macro does, step by step, is recorded as a list of actions in
  program order: the evaluation of the operand expression \<open>(a)\<close> into \<open>_L\<close>, of \<open>(b)\<close> into
  \<open>_R\<close>, the calls of the functions that the header only declares, and the statement
  \<open>TEST_DEBUGBREAK\<close>. \<open>Call_dump\<close> carries the arguments \<open>__FILE__\<close>, \<open>__LINE__\<close>, \<open>#TYPE\<close>,
  \<open>#OP\<close>, \<open>#a\<close>, \<open>#b\<close>, the values stored in \<open>_L\<close> and \<open>_R\<close> (passed by address), and the
  format string.
\<close>

datatype 'v action =
    Eval_a
  | Eval_b
  | Call_compare string 'v 'v
  | Call_dump string nat string string string string 'v 'v string
  | Call_break_on_failure
  | DEBUGBREAK
  | Call_assert_failure

text \<open>The textual arguments of one use of the macro.\<close>

record assert_site =
  src_file :: string
  src_line :: nat
  TYPE_text :: string
  op :: cmp_op
  a_text :: string
  b_text :: string
  fmt :: string

text \<open>
  The operand expressions are arbitrary C expressions: each yields a value and may change the
  user's state \<open>'s\<close>. The variadic print arguments are evaluated when \<open>cutest_internal_dump\<close>
  is called and may change the state too. \<open>cutest_internal_compare\<close> and
  \<open>cutest_internal_break_on_failure\<close> are declared in the header and defined elsewhere, so
  they are parameters; a comparison that does not return (it aborts the process) is \<open>None\<close>,
  and the result of the assertion says whether the comparison returned.
\<close>

record ('s, 'v) assert_env =
  operand_a :: "'s \<Rightarrow> 'v \<times> 's"
  operand_b :: "'s \<Rightarrow> 'v \<times> 's"
  print_args :: "'s \<Rightarrow> 's"
  cutest_internal_compare :: "string \<Rightarrow> 'v \<Rightarrow> 'v \<Rightarrow> int option"
  cutest_internal_break_on_failure :: int

record ('s, 'v) assert_result =
  actions :: "'v action list"
  user :: 's
  compare_returned :: bool

definition ASSERT_TEMPLATE_EXT ::
  "('s, 'v) assert_env \<Rightarrow> assert_site \<Rightarrow> 's \<Rightarrow> ('s, 'v) assert_result" where
  "ASSERT_TEMPLATE_EXT env site u0 =
     (let (L, u1) = operand_a env u0;
          (R, u2) = operand_b env u1;
          evals = [Eval_a, Eval_b, Call_compare (TYPE_text site) L R]
      in case cutest_internal_compare env (TYPE_text site) L R of
           None \<Rightarrow> \<lparr>actions = evals, user = u2, compare_returned = False\<rparr>
         | Some c \<Rightarrow>
             if op_holds (op site) c
             then \<lparr>actions = evals, user = u2, compare_returned = True\<rparr>
             else
               let dumped = [Call_dump (src_file site) (src_line site) (TYPE_text site) (op_text (op site))
                             (a_text site) (b_text site) L R (fmt site)];
                   u3 = print_args env u2;
                   brk = (if cutest_internal_break_on_failure env \<noteq> 0
                          then [Call_break_on_failure, DEBUGBREAK]
                          else [Call_break_on_failure])
               in \<lparr>actions = evals @ dumped @ brk @ [Call_assert_failure],
                   user = u3, compare_returned = True\<rparr>)"

text \<open>The values that the single evaluation of the operands stores in \<open>_L\<close> and \<open>_R\<close>.\<close>

definition stored_L :: "('s, 'v) assert_env \<Rightarrow> 's \<Rightarrow> 'v" where
  "stored_L env u0 = fst (operand_a env u0)"

definition stored_R :: "('s, 'v) assert_env \<Rightarrow> 's \<Rightarrow> 'v" where
  "stored_R env u0 = fst (operand_b env (snd (operand_a env u0)))"

definition after_operands :: "('s, 'v) assert_env \<Rightarrow> 's \<Rightarrow> 's" where
  "after_operands env u0 = snd (operand_b env (snd (operand_a env u0)))"

definition compare_result :: "('s, 'v) assert_env \<Rightarrow> assert_site \<Rightarrow> 's \<Rightarrow> int option" where
  "compare_result env site u0 =
     cutest_internal_compare env (TYPE_text site) (stored_L env u0) (stored_R env u0)"

fun is_dump :: "'v action \<Rightarrow> bool" where
  "is_dump (Call_dump f l t opr ta tb x y m) = True"
| "is_dump _ = False"

text \<open>
  A concrete assertion for evaluation: \<open>ASSERT_xx_INT(x++, y++)\<close> on a state that counts the
  increments, with operand values 2 and 3 and the usual three-way integer comparison.
\<close>

definition demo_env :: "int \<Rightarrow> (nat, int) assert_env" where
  "demo_env brk = \<lparr>operand_a = (\<lambda>u. (2, Suc u)), operand_b = (\<lambda>u. (3, Suc u)),
     print_args = (\<lambda>u. u),
     cutest_internal_compare = (\<lambda>t x y. Some (if x = y then 0 else if x < y then - 1 else 1)),
     cutest_internal_break_on_failure = brk\<rparr>"

definition demo_site :: "cmp_op \<Rightarrow> assert_site" where
  "demo_site opr = \<lparr>src_file = ''t.c'', src_line = 7, TYPE_text = ''int'', op = opr,
     a_text = ''x++'', b_text = ''y++'', fmt = ''''\<rparr>"

section \<open>Counting macro arguments: \<open>TEST_ARG_COUNT\<close> (cutest.h, lines 320-336)\<close>

text \<open>
  The header defines the macro twice: for Microsoft's compilers (lines 325-331) and for all
  others (lines 333-335). The second definition writes \<open>0, ## __VA_ARGS__, 16, ...\<close>: a
  preprocessor with the GNU extensions drops the comma in front of an empty \<open>__VA_ARGS__\<close>,
  a preprocessor held to ISO C keeps it. The three ways of expanding the macro are told apart.
\<close>

datatype preprocessor = Microsoft | Gnu | Iso

text \<open>
  A macro argument is a literal written in the macro's own body, one of the caller's top-level
  comma-separated arguments (a token sequence of type \<open>'t\<close>), the token \<open>unused\<close> that the
  Microsoft branch puts in front, or an empty argument (nothing between two commas). The
  preprocessor splits at every comma that is not inside parentheses, so the braced
  initializer \<open>{ 6, 7 }\<close> arrives as the two arguments \<open>{ 6\<close> and \<open>7 }\<close>.
\<close>

datatype 't pp_arg = Lit nat | Arg 't | Unused | Empty_arg

text \<open>
  The arguments that \<open>__VA_ARGS__\<close> contributes behind a comma that is kept: the caller's
  arguments, or one empty argument when there are none.
\<close>

definition behind_kept_comma :: "'t list \<Rightarrow> 't pp_arg list" where
  "behind_kept_comma va = (if va = [] then [Empty_arg] else map Arg va)"

text \<open>
  \<open>TEST_INTERNAL_GET_ARG_COUNT_PRIVATE\<close> expands to its parameter \<open>count\<close>. In the Microsoft
  branch (line 331) sixteen parameters \<open>_1_\<close>, ..., \<open>_16_\<close> precede it, so it is the
  seventeenth argument; in the other branch (line 335) the seventeen parameters \<open>_0\<close>,
  \<open>_1_\<close>, ..., \<open>_16_\<close> precede it, so it is the eighteenth.
\<close>

definition TEST_INTERNAL_GET_ARG_COUNT_PRIVATE :: "preprocessor \<Rightarrow> 'x list \<Rightarrow> 'x option" where
  "TEST_INTERNAL_GET_ARG_COUNT_PRIVATE pp xs =
     (case pp of
        Microsoft \<Rightarrow> (if 16 < length xs then Some (xs ! 16) else None)
      | Gnu \<Rightarrow> (if 17 < length xs then Some (xs ! 17) else None)
      | Iso \<Rightarrow> (if 17 < length xs then Some (xs ! 17) else None))"

text \<open>
  \<open>TEST_ARG_COUNT(...)\<close>. Microsoft branch: \<open>TEST_INTERNAL_ARGS_AUGMENTER\<close> yields
  \<open>unused, __VA_ARGS__\<close>, and \<open>TEST_INTERNAL_EXPAND_ARGS_PRIVATE\<close> appends the literals
  \<open>15, 14, ..., 0\<close> (the expansion is the one of a conforming preprocessor, which
  \<open>TEST_EXPAND\<close> is there to obtain). Other branch:
  \<open>TEST_INTERNAL_GET_ARG_COUNT_PRIVATE(0, ## __VA_ARGS__, 16, 15, ..., 0)\<close>.
\<close>

definition TEST_ARG_COUNT :: "preprocessor \<Rightarrow> 't list \<Rightarrow> 't pp_arg option" where
  "TEST_ARG_COUNT pp va =
     (case pp of
        Microsoft \<Rightarrow>
          TEST_INTERNAL_GET_ARG_COUNT_PRIVATE Microsoft
            (Unused # behind_kept_comma va
               @ map Lit [15, 14, 13, 12, 11, 10, 9, 8, 7, 6, 5, 4, 3, 2, 1, 0])
      | Gnu \<Rightarrow>
          TEST_INTERNAL_GET_ARG_COUNT_PRIVATE Gnu
            (Lit 0 # map Arg va
               @ map Lit [16, 15, 14, 13, 12, 11, 10, 9, 8, 7, 6, 5, 4, 3, 2, 1, 0])
      | Iso \<Rightarrow>
          TEST_INTERNAL_GET_ARG_COUNT_PRIVATE Iso
            (Lit 0 # behind_kept_comma va
               @ map Lit [16, 15, 14, 13, 12, 11, 10, 9, 8, 7, 6, 5, 4, 3, 2, 1, 0]))"

section \<open>Case descriptors and the registration macros (cutest.h, lines 128-285, 352-382)\<close>

text \<open>
  \<open>cutest_case_t\<close>. Function pointers are identifiers of type \<open>'f\<close> and \<open>param_data\<close> is an
  address of type \<open>'p\<close>; \<open>None\<close> is \<open>NULL\<close>. The member \<open>node\<close> is the link of the registry's
  tree; every macro resets it to three \<open>NULL\<close>s and only the registry writes it, so the model
  keeps the links in the registry's tree and not in the descriptor.
\<close>

record ('f, 'p) cutest_case =
  fixture_name :: string
  case_name :: string
  stage_setup :: "'f option"
  stage_teardown :: "'f option"
  stage_body :: "'f option"
  mask :: nat
  randkey :: nat
  param_type_name :: "string option"
  test_data_cstr :: "string option"
  param_data :: "'p option"
  param_idx :: nat

text \<open>
  What one use of \<open>TEST_PARAMETERIZED_DEFINE(fixture, test, TYPE, ...)\<close> in one build fixes:
  the preprocessor, the three names, the variadic arguments as the preprocessor splits them,
  their stringification, the array \<open>s_parameterized_userdata\<close> that the compiler builds from
  \<open>{ __VA_ARGS__ }\<close> and its address, the fixture's setup and teardown functions, and the
  value of a caller's token sequence as an array bound (\<open>None\<close> when it is not an integer
  constant, so that the declaration of \<open>s_tests\<close> does not compile). The array is whatever C's
  initialization rules make of the list: one argument may give several elements (a string
  literal for an array of \<open>char\<close>) and several arguments one element (a braced structure).
\<close>

record ('t, 'v, 'f, 'p) parameterized_define =
  compiled_by :: preprocessor
  pd_fixture :: string
  pd_test :: string
  pd_TYPE :: string
  pd_va_args :: "'t list"
  pd_va_text :: string
  s_parameterized_userdata :: "'v list"
  userdata_addr :: 'p
  s_cutest_fixture_setup :: 'f
  s_cutest_fixture_teardown :: 'f
  const_value :: "'t \<Rightarrow> nat option"

text \<open>The number of elements of \<open>static cutest_case_t s_tests[TEST_ARG_COUNT(__VA_ARGS__)]\<close>.\<close>

definition s_tests_size :: "('t, 'v, 'f, 'p) parameterized_define \<Rightarrow> nat option" where
  "s_tests_size P =
     (case TEST_ARG_COUNT (compiled_by P) (pd_va_args P) of
        None \<Rightarrow> None
      | Some (Lit n) \<Rightarrow> Some n
      | Some (Arg t) \<Rightarrow> const_value P t
      | Some Unused \<Rightarrow> None
      | Some Empty_arg \<Rightarrow> None)"

text \<open>
  \<open>sizeof(s_parameterized_userdata) / sizeof(s_parameterized_userdata[0])\<close>, the bound of the
  loop.
\<close>

definition number_of_parameterized_data :: "('t, 'v, 'f, 'p) parameterized_define \<Rightarrow> nat" where
  "number_of_parameterized_data P = length (s_parameterized_userdata P)"

text \<open>The descriptor that the loop body stores in \<open>s_tests[i]\<close>.\<close>

definition parameterized_case ::
  "('t, 'v, 'f, 'p) parameterized_define \<Rightarrow> 'f \<Rightarrow> nat \<Rightarrow> ('f, 'p) cutest_case" where
  "parameterized_case P cb i =
     \<lparr>fixture_name = pd_fixture P, case_name = pd_test P,
      stage_setup = Some (s_cutest_fixture_setup P),
      stage_teardown = Some (s_cutest_fixture_teardown P), stage_body = Some cb, mask = 0, randkey = 0,
      param_type_name = Some (pd_TYPE P), test_data_cstr = Some (pd_va_text P),
      param_data = Some (userdata_addr P), param_idx = i\<rparr>"

text \<open>
  The static storage of a zero-initialised \<open>cutest_case_t\<close>; the two name pointers are \<open>NULL\<close>,
  which the model writes as the empty string.
\<close>

definition zero_case :: "('f, 'p) cutest_case" where
  "zero_case =
     \<lparr>fixture_name = [], case_name = [], stage_setup = None, stage_teardown = None,
      stage_body = None,
      mask = 0, randkey = 0, param_type_name = None, test_data_cstr = None,
      param_data = None, param_idx = 0\<rparr>"

text \<open>
  The state of the generated registration function: the array \<open>s_tests\<close>, and the arguments
  of the calls of \<open>cutest_register_case\<close> made so far, oldest first. A store to \<open>s_tests[i]\<close>
  with \<open>i\<close> outside the array has undefined behaviour in C; the model ends there with the
  index of that store as an error, and does not say what a particular build does next.
\<close>

record ('f, 'p) register_state =
  s_tests :: "('f, 'p) cutest_case list"
  register_calls :: "('f, 'p) cutest_case list"

datatype register_error = Size_not_constant | Store_out_of_bounds nat

text \<open>The loop \<open>for (i = 0; i < number_of_parameterized_data; i++) { ... }\<close>, entered at \<open>i\<close>.\<close>

function register_loop ::
  "('t, 'v, 'f, 'p) parameterized_define \<Rightarrow> 'f \<Rightarrow> nat \<Rightarrow> ('f, 'p) register_state
     \<Rightarrow> register_error + ('f, 'p) register_state" where
  "register_loop P cb i st =
     (if i < number_of_parameterized_data P
      then (if i < length (s_tests st)
            then register_loop P cb (Suc i)
                   \<lparr>s_tests = (s_tests st)[i := parameterized_case P cb i],
                    register_calls = register_calls st @ [parameterized_case P cb i]\<rparr>
            else Inl (Store_out_of_bounds i))
      else Inr st)"
  by pat_completeness auto

termination
  by (relation "measure (\<lambda>(P, cb, i, st). number_of_parameterized_data P - i)") auto

declare register_loop.simps [simp del]

text \<open>
  \<open>cutest_usertest_parameterized_register_fixture_test(cb)\<close>, the function that the macro
  defines, run on fresh static storage.
\<close>

definition cutest_usertest_parameterized_register ::
  "('t, 'v, 'f, 'p) parameterized_define \<Rightarrow> 'f \<Rightarrow> register_error + ('f, 'p) register_state" where
  "cutest_usertest_parameterized_register P cb =
     (case s_tests_size P of
        None \<Rightarrow> Inl Size_not_constant
      | Some n \<Rightarrow> register_loop P cb 0 \<lparr>s_tests = replicate n zero_case, register_calls = []\<rparr>)"

text \<open>
  The initializer that \<open>TEST_P(fixture, test)\<close> defines: guarded by the static \<open>s_token\<close>, it
  calls the registration function with the test body the first time it runs. The state is
  the token and the outcomes of the calls of the registration function so far, oldest first.
\<close>

record ('f, 'p) test_p_state =
  s_token :: nat
  registrations :: "(register_error + ('f, 'p) register_state) list"

definition test_p_initial :: "('f, 'p) test_p_state" where
  "test_p_initial = \<lparr>s_token = 0, registrations = []\<rparr>"

definition cutest_usertest_interface ::
  "('t, 'v, 'f, 'p) parameterized_define \<Rightarrow> 'f \<Rightarrow> ('f, 'p) test_p_state \<Rightarrow> ('f, 'p) test_p_state" where
  "cutest_usertest_interface P u_cutest_body st =
     (if s_token st = 0
      then \<lparr>s_token = 1,
            registrations =
              registrations st @ [cutest_usertest_parameterized_register P u_cutest_body]\<rparr>
      else st)"

text \<open>
  \<open>TEST_GET_PARAM()\<close> is \<open>_test_parameterized_data[_test_parameterized_idx]\<close>; reading outside
  the array is undefined in C and \<open>None\<close> here.
\<close>

definition TEST_GET_PARAM :: "'v list \<Rightarrow> nat \<Rightarrow> 'v option" where
  "TEST_GET_PARAM test_parameterized_data test_parameterized_idx =
     (if test_parameterized_idx < length test_parameterized_data
      then Some (test_parameterized_data ! test_parameterized_idx) else None)"

text \<open>
  The value a test body reads through \<open>TEST_GET_PARAM()\<close>. The header documents
  \<open>param_data\<close> as the data and \<open>param_idx\<close> as the index passed to \<open>stage.body\<close>
  (cutest.h, lines 379-380), and \<open>TEST_P\<close> names the body's two parameters
  \<open>_test_parameterized_data\<close> and \<open>_test_parameterized_idx\<close>. The memory \<open>mem\<close> maps the
  address of a parameter array to its contents.
\<close>

definition observed_param :: "('p \<Rightarrow> 'v list option) \<Rightarrow> ('f, 'p) cutest_case \<Rightarrow> 'v option" where
  "observed_param mem d =
     (case param_data d of
        None \<Rightarrow> None
      | Some p \<Rightarrow> (case mem p of None \<Rightarrow> None | Some arr \<Rightarrow> TEST_GET_PARAM arr (param_idx d)))"

text \<open>
  The descriptors that \<open>TEST_F(fixture, test)\<close> and \<open>TEST(fixture, test)\<close> pass to
  \<open>cutest_register_case\<close> (cutest.h, lines 211-285).
\<close>

definition TEST_F_case :: "string \<Rightarrow> string \<Rightarrow> 'f \<Rightarrow> 'f \<Rightarrow> 'f \<Rightarrow> ('f, 'p) cutest_case" where
  "TEST_F_case fixture test s_cutest_fixture_setup_f s_cutest_fixture_teardown_f s_cutest_proxy =
     \<lparr>fixture_name = fixture, case_name = test,
      stage_setup = Some s_cutest_fixture_setup_f,
      stage_teardown = Some s_cutest_fixture_teardown_f,
      stage_body = Some s_cutest_proxy, mask = 0, randkey = 0,
      param_type_name = None, test_data_cstr = None, param_data = None, param_idx = 0\<rparr>"

definition TEST_case :: "string \<Rightarrow> string \<Rightarrow> 'f \<Rightarrow> ('f, 'p) cutest_case" where
  "TEST_case fixture test s_cutest_proxy =
     \<lparr>fixture_name = fixture, case_name = test,
      stage_setup = None, stage_teardown = None,
      stage_body = Some s_cutest_proxy, mask = 0, randkey = 0,
      param_type_name = None, test_data_cstr = None, param_data = None, param_idx = 0\<rparr>"

text \<open>
  Token sequences for concrete uses of the macro: an integer constant, a string literal, or
  other tokens; only the first has a value as an array bound.
\<close>

datatype token = Number nat | String_literal string | Tokens string

fun token_value :: "token \<Rightarrow> nat option" where
  "token_value (Number n) = Some n"
| "token_value (String_literal s) = None"
| "token_value (Tokens s) = None"

text \<open>
  Concrete uses of the macro: the header's own example
  \<open>TEST_PARAMETERIZED_DEFINE(foo, param, int, 0, 1, 2)\<close>; an array of \<open>char\<close> initialized by
  one string literal, \<open>TEST_PARAMETERIZED_DEFINE(foo, str, char, "abc")\<close>, whose four elements
  are the three letters and the terminating zero; and a list of seventeen integers,
  \<open>TEST_PARAMETERIZED_DEFINE(foo, many, int, 10, 11, ..., 24, 2, 3)\<close>.
\<close>

definition foo_param :: "(nat, int, string, nat) parameterized_define" where
  "foo_param =
     \<lparr>compiled_by = Gnu, pd_fixture = ''foo'', pd_test = ''param'', pd_TYPE = ''int'',
      pd_va_args = [0, 1, 2], pd_va_text = ''0, 1, 2'',
      s_parameterized_userdata = [0, 1, 2], userdata_addr = 4096,
      s_cutest_fixture_setup = ''s_cutest_fixture_setup_foo'',
      s_cutest_fixture_teardown = ''s_cutest_fixture_teardown_foo'',
      const_value = Some\<rparr>"

definition abc_param :: "preprocessor \<Rightarrow> (token, char, string, nat) parameterized_define" where
  "abc_param pp =
     \<lparr>compiled_by = pp, pd_fixture = ''foo'', pd_test = ''str'', pd_TYPE = ''char'',
      pd_va_args = [String_literal ''abc''],
      pd_va_text = CHR 0x22 # ''abc'' @ [CHR 0x22],
      s_parameterized_userdata = [CHR ''a'', CHR ''b'', CHR ''c'', CHR 0x00],
      userdata_addr = 4096,
      s_cutest_fixture_setup = ''s_cutest_fixture_setup_foo'',
      s_cutest_fixture_teardown = ''s_cutest_fixture_teardown_foo'',
      const_value = token_value\<rparr>"

definition seventeen_values :: "preprocessor \<Rightarrow> (token, int, string, nat) parameterized_define" where
  "seventeen_values pp =
     \<lparr>compiled_by = pp, pd_fixture = ''foo'', pd_test = ''many'', pd_TYPE = ''int'',
      pd_va_args =
        map Number [10, 11, 12, 13, 14, 15, 16, 17, 18, 19, 20, 21, 22, 23, 24, 2, 3],
      pd_va_text = ''10, 11, 12, 13, 14, 15, 16, 17, 18, 19, 20, 21, 22, 23, 24, 2, 3'',
      s_parameterized_userdata =
        [10, 11, 12, 13, 14, 15, 16, 17, 18, 19, 20, 21, 22, 23, 24, 2, 3],
      userdata_addr = 4096,
      s_cutest_fixture_setup = ''s_cutest_fixture_setup_foo'',
      s_cutest_fixture_teardown = ''s_cutest_fixture_teardown_foo'',
      const_value = token_value\<rparr>"

section \<open>The ordered registry (spec, section 4.1)\<close>

text \<open>
  Modelled from the spec: the map behind \<open>cutest_register_case\<close> and
  \<open>cutest_internal_register_type\<close>. The header declares the two functions and the node type
  \<open>cutest_map_node_t\<close> (parent-and-colour, right child, left child); the map's operations are
  not among the sources. The spec describes a self-balancing binary search tree of red-black
  discipline that stores descriptors by reference; a node here carries its colour, its two
  subtrees and its descriptor.
\<close>

datatype rb_color = RB_RED | RB_BLACK

text \<open>
  Modelled from the spec: the tree itself; \<open>Map_empty\<close> is the \<open>NULL\<close> link.
\<close>

datatype 'd cutest_map = Map_empty | Map_node rb_color "'d cutest_map" 'd "'d cutest_map"

text \<open>
  Modelled from the spec: \<open>in_order_traverse() -> sequence of descriptors\<close>, the tree's
  natural order.
\<close>

fun in_order_traverse :: "'d cutest_map \<Rightarrow> 'd list" where
  "in_order_traverse Map_empty = []"
| "in_order_traverse (Map_node c l x r) = in_order_traverse l @ x # in_order_traverse r"

text \<open>
  Modelled from the spec: \<open>find(key) -> Option<descriptor>\<close>, the search of a binary search
  tree; \<open>key\<close> extracts the key of a descriptor.
\<close>

fun cutest_map_find :: "('d \<Rightarrow> 'k::linorder) \<Rightarrow> 'k \<Rightarrow> 'd cutest_map \<Rightarrow> 'd option" where
  "cutest_map_find key k Map_empty = None"
| "cutest_map_find key k (Map_node c l x r) =
     (if k < key x then cutest_map_find key k l
      else if key x < k then cutest_map_find key k r
      else Some x)"

text \<open>
  Modelled from the spec: the red-black rebalancing after an insertion into the left or the
  right subtree. A black node with a red child that has a red child is rotated and
  recoloured; every other node stays as it is.
\<close>

fun rebalance_left :: "rb_color \<Rightarrow> 'd cutest_map \<Rightarrow> 'd \<Rightarrow> 'd cutest_map \<Rightarrow> 'd cutest_map" where
  "rebalance_left RB_BLACK (Map_node RB_RED (Map_node RB_RED t1 x t2) y t3) z t4 =
     Map_node RB_RED (Map_node RB_BLACK t1 x t2) y (Map_node RB_BLACK t3 z t4)"
| "rebalance_left RB_BLACK (Map_node RB_RED t1 x (Map_node RB_RED t2 y t3)) z t4 =
     Map_node RB_RED (Map_node RB_BLACK t1 x t2) y (Map_node RB_BLACK t3 z t4)"
| "rebalance_left c l x r = Map_node c l x r"

text \<open>
  Modelled from the spec: the mirror image, after an insertion into the right subtree.
\<close>

fun rebalance_right :: "rb_color \<Rightarrow> 'd cutest_map \<Rightarrow> 'd \<Rightarrow> 'd cutest_map \<Rightarrow> 'd cutest_map" where
  "rebalance_right RB_BLACK t1 x (Map_node RB_RED t2 y (Map_node RB_RED t3 z t4)) =
     Map_node RB_RED (Map_node RB_BLACK t1 x t2) y (Map_node RB_BLACK t3 z t4)"
| "rebalance_right RB_BLACK t1 x (Map_node RB_RED (Map_node RB_RED t2 y t3) z t4) =
     Map_node RB_RED (Map_node RB_BLACK t1 x t2) y (Map_node RB_BLACK t3 z t4)"
| "rebalance_right c l x r = Map_node c l x r"

text \<open>
  Modelled from the spec: \<open>insert(descriptor) -> Result<void, DuplicateKey>\<close>. The descent
  compares the new key with each node's key, goes left or right, and gives up with \<open>None\<close>
  when it meets an equal key; a new node is linked red at the leaf reached, and the path is
  rebalanced on the way back. The root is painted black at the end.
\<close>

fun link_node :: "('d \<Rightarrow> 'k::linorder) \<Rightarrow> 'd \<Rightarrow> 'd cutest_map \<Rightarrow> 'd cutest_map option" where
  "link_node key d Map_empty = Some (Map_node RB_RED Map_empty d Map_empty)"
| "link_node key d (Map_node c l x r) =
     (if key d < key x
      then (case link_node key d l of
              None \<Rightarrow> None
            | Some l' \<Rightarrow> Some (rebalance_left c l' x r))
      else if key x < key d
      then (case link_node key d r of
              None \<Rightarrow> None
            | Some r' \<Rightarrow> Some (rebalance_right c l x r'))
      else None)"

text \<open>
  Modelled from the spec: the root of a red-black tree is black.
\<close>

fun blacken_root :: "'d cutest_map \<Rightarrow> 'd cutest_map" where
  "blacken_root Map_empty = Map_empty"
| "blacken_root (Map_node c l x r) = Map_node RB_BLACK l x r"

text \<open>
  Modelled from the spec: the map's insertion, \<open>None\<close> for a duplicate key.
\<close>

definition cutest_map_insert ::
  "('d \<Rightarrow> 'k::linorder) \<Rightarrow> 'd \<Rightarrow> 'd cutest_map \<Rightarrow> 'd cutest_map option" where
  "cutest_map_insert key d t = map_option blacken_root (link_node key d t)"

text \<open>
  The search-tree invariant: in every node, the keys of the left subtree are smaller than the
  node's key and the keys of the right subtree are larger.
\<close>

fun ordered :: "('d \<Rightarrow> 'k::linorder) \<Rightarrow> 'd cutest_map \<Rightarrow> bool" where
  "ordered key Map_empty = True"
| "ordered key (Map_node c l x r) =
     (ordered key l \<and> ordered key r
      \<and> (\<forall>y \<in> set (in_order_traverse l). key y < key x)
      \<and> (\<forall>y \<in> set (in_order_traverse r). key x < key y))"

text \<open>
  Modelled from the spec: the composite key \<open>(fixture_name, case_name, param_index)\<close> of a
  case descriptor, ordered lexicographically; strings are ordered byte-wise (characters by
  their codes, a proper prefix first), numbers as numbers. This is the order \<open><\<close> of the
  type \<open>string \<times> string \<times> nat\<close>.
\<close>

definition case_key :: "('f, 'p) cutest_case \<Rightarrow> string \<times> string \<times> nat" where
  "case_key d = (fixture_name d, case_name d, param_idx d)"

text \<open>
  Modelled from the spec: \<open>cutest_register_case\<close> (declared in the header, lines 384-388,
  not defined in the sources). The spec has a duplicate key rejected, fail fast and without
  overwriting, the registry unchanged. The result is the error, if any, and the registry
  after the call.
\<close>

datatype registry_error = DuplicateKey

text \<open>
  Modelled from the spec: \<open>cutest_register_case\<close>; a rejected registration hands back the
  registry it was given.
\<close>

definition cutest_register_case ::
  "('f, 'p) cutest_case \<Rightarrow> ('f, 'p) cutest_case cutest_map
     \<Rightarrow> registry_error option \<times> ('f, 'p) cutest_case cutest_map" where
  "cutest_register_case test_case case_table =
     (case cutest_map_insert case_key test_case case_table of
        None \<Rightarrow> (Some DuplicateKey, case_table)
      | Some t \<Rightarrow> (None, t))"

text \<open>
  Modelled from the spec: a sequence of registrations at start-up, in order; the first
  rejected registration fails the run.
\<close>

fun register_cases ::
  "('f, 'p) cutest_case list \<Rightarrow> ('f, 'p) cutest_case cutest_map
     \<Rightarrow> registry_error + ('f, 'p) cutest_case cutest_map" where
  "register_cases [] t = Inr t"
| "register_cases (d # ds) t =
     (case cutest_register_case d t of
        (Some e, t') \<Rightarrow> Inl e
      | (None, t') \<Rightarrow> register_cases ds t')"

text \<open>
  Modelled from the spec: the byte-wise three-way comparison of two strings and of two case
  keys, written out as a C comparator would compute it; \<open>cmp_case_less\<close> below shows that
  it is the order of \<open>case_key\<close>.
\<close>

fun strcmp :: "string \<Rightarrow> string \<Rightarrow> int" where
  "strcmp [] [] = 0"
| "strcmp [] (y # ys) = - 1"
| "strcmp (x # xs) [] = 1"
| "strcmp (x # xs) (y # ys) =
     (if (of_char x :: nat) < of_char y then - 1
      else if (of_char y :: nat) < of_char x then 1
      else strcmp xs ys)"

text \<open>
  Modelled from the spec: the comparison of two case descriptors: fixture names first, then
  case names, then parameter indices.
\<close>

definition cmp_case :: "('f, 'p) cutest_case \<Rightarrow> ('f, 'p) cutest_case \<Rightarrow> int" where
  "cmp_case u v =
     (if strcmp (fixture_name u) (fixture_name v) \<noteq> 0
      then strcmp (fixture_name u) (fixture_name v)
      else if strcmp (case_name u) (case_name v) \<noteq> 0
      then strcmp (case_name u) (case_name v)
      else if param_idx u = param_idx v then 0
      else if param_idx u < param_idx v then - 1 else 1)"

section \<open>The type registry (cutest.h, lines 1089-1106 and 1154-1167)\<close>

text \<open>
  \<open>cutest_type_info_t\<close>; the comparison and dump functions are identifiers of types \<open>'c\<close>
  and \<open>'u\<close>. As for case descriptors, the member \<open>node\<close> is kept in the tree.
\<close>

record ('c, 'u) cutest_type_info =
  type_name :: string
  cmp :: 'c
  dump :: 'u

text \<open>
  Modelled from the spec: \<open>cutest_internal_register_type\<close> (declared in the header, not
  defined in the sources). The spec keys the type registry by \<open>type_name\<close> in the same map
  and has the registration of a name that is already present do nothing.
\<close>

definition cutest_internal_register_type ::
  "('c, 'u) cutest_type_info \<Rightarrow> ('c, 'u) cutest_type_info cutest_map
     \<Rightarrow> ('c, 'u) cutest_type_info cutest_map" where
  "cutest_internal_register_type info type_table =
     (case cutest_map_insert type_name info type_table of
        None \<Rightarrow> type_table
      | Some t \<Rightarrow> t)"

text \<open>
  \<open>TEST_REGISTER_TYPE_ONCE(TYPE, fn_cmp, fn_dump)\<close> at one place of the program: the static
  \<open>s_info\<close> holds the type's name and functions, the static \<open>s_token\<close> of that place guards
  the call. The state is the token of the place and the global type table.
\<close>

fun TEST_REGISTER_TYPE_ONCE ::
  "('c, 'u) cutest_type_info \<Rightarrow> nat \<times> ('c, 'u) cutest_type_info cutest_map
     \<Rightarrow> nat \<times> ('c, 'u) cutest_type_info cutest_map" where
  "TEST_REGISTER_TYPE_ONCE s_info (token, type_table) =
     (if token = 0 then (1, cutest_internal_register_type s_info type_table)
      else (token, type_table))"

text \<open>
  Concrete descriptors: \<open>TEST_F(foo, normal)\<close>, \<open>TEST(Foo, self)\<close>, the instances of the
  parameterized \<open>foo.param\<close>, a second descriptor with the key of \<open>foo.normal\<close>, and the
  header's example type \<open>foo_t\<close> registered at two places with different functions.
\<close>

definition foo_normal :: "(string, nat) cutest_case" where
  "foo_normal = TEST_F_case ''foo'' ''normal'' ''s_cutest_fixture_setup_foo''
     ''s_cutest_fixture_teardown_foo'' ''s_cutest_proxy_foo_normal''"

definition Foo_self :: "(string, nat) cutest_case" where
  "Foo_self = TEST_case ''Foo'' ''self'' ''s_cutest_proxy_Foo_self''"

definition foo_param_case :: "nat \<Rightarrow> (string, nat) cutest_case" where
  "foo_param_case i = parameterized_case foo_param ''u_cutest_body_foo_param'' i"

definition demo_cases :: "(string, nat) cutest_case list" where
  "demo_cases = [foo_normal, foo_param_case 1, Foo_self, foo_param_case 0]"

definition foo_normal_again :: "(string, nat) cutest_case" where
  "foo_normal_again = TEST_case ''foo'' ''normal'' ''s_cutest_proxy_foo_normal_2''"

definition two_cases_table :: "(string, nat) cutest_case cutest_map" where
  "two_cases_table =
     Map_node RB_BLACK (Map_node RB_RED Map_empty Foo_self Map_empty) foo_normal Map_empty"

definition foo_t_first :: "(string, string) cutest_type_info" where
  "foo_t_first = \<lparr>type_name = ''foo_t'', cmp = ''_on_cmp_foo'', dump = ''_on_dump_foo''\<rparr>"

definition foo_t_second :: "(string, string) cutest_type_info" where
  "foo_t_second = \<lparr>type_name = ''foo_t'', cmp = ''other_cmp'', dump = ''other_dump''\<rparr>"

chapter \<open>Properties\<close>

section \<open>Assertions\<close>

lemmas assert_defs = ASSERT_TEMPLATE_EXT_def stored_L_def stored_R_def after_operands_def compare_result_def

subsection \<open>The failure branch is taken exactly when \<open>c OP 0\<close> is false\<close>

text \<open>
  Claim C3. Whenever \<open>cutest_internal_compare\<close> returns a result \<open>c\<close> for the stored operands,
  the assertion calls \<open>cutest_internal_dump\<close> and \<open>cutest_internal_assert_failure\<close> if and only
  if \<open>c OP 0\<close> is false; when \<open>c OP 0\<close> holds the assertion does nothing but evaluate the two
  operands and call the comparison, and the user's state is the one the operands left.
\<close>

theorem assert_failure_branch_iff:
  assumes "compare_result env site u0 = Some c"
  shows "((\<exists>x \<in> set (actions (ASSERT_TEMPLATE_EXT env site u0)). is_dump x) \<longleftrightarrow> \<not> op_holds (op site) c)
       \<and> (Call_assert_failure \<in> set (actions (ASSERT_TEMPLATE_EXT env site u0)) \<longleftrightarrow> \<not> op_holds (op site) c)
       \<and> (op_holds (op site) c \<longrightarrow>
            ASSERT_TEMPLATE_EXT env site u0 =
              \<lparr>actions = [Eval_a, Eval_b,
                           Call_compare (TYPE_text site) (stored_L env u0) (stored_R env u0)],
               user = after_operands env u0, compare_returned = True\<rparr>)"
  using assms by (auto simp: assert_defs split: prod.splits)

theorem assert_failure_branch_iff_witness:
  "compare_result (demo_env 0) (demo_site OP_EQ) 0 = Some (- 1)
   \<and> (\<exists>x \<in> set (actions (ASSERT_TEMPLATE_EXT (demo_env 0) (demo_site OP_EQ) 0)). is_dump x)
   \<and> Call_assert_failure \<in> set (actions (ASSERT_TEMPLATE_EXT (demo_env 0) (demo_site OP_EQ) 0))"
proof -
  have h: "compare_result (demo_env 0) (demo_site OP_EQ) 0 = Some (- 1)"
    by (simp add: compare_result_def stored_L_def stored_R_def demo_env_def demo_site_def)
  show ?thesis
    using h assert_failure_branch_iff [OF h] by (simp add: demo_site_def)
qed

subsection \<open>Operands are evaluated once\<close>

text \<open>
  Claim C4. In every execution of an assertion, whatever the comparison answers (also when
  it never returns), the operand expression \<open>a\<close> is evaluated exactly once and so is \<open>b\<close>;
  a diagnostic, when one is rendered, is given the temporaries \<open>_L\<close> and \<open>_R\<close> stored by that
  single evaluation, and the state the assertion leaves is the state after one evaluation of
  \<open>a\<close> and then \<open>b\<close>, possibly followed by the evaluation of the print arguments.
\<close>

theorem assert_operands_evaluated_once:
  "count_list (actions (ASSERT_TEMPLATE_EXT env site u0)) Eval_a = 1
   \<and> count_list (actions (ASSERT_TEMPLATE_EXT env site u0)) Eval_b = 1
   \<and> (\<forall>f l t opr ta tb x y m.
         Call_dump f l t opr ta tb x y m \<in> set (actions (ASSERT_TEMPLATE_EXT env site u0))
         \<longrightarrow> x = stored_L env u0 \<and> y = stored_R env u0)
   \<and> user (ASSERT_TEMPLATE_EXT env site u0)
       \<in> {after_operands env u0, print_args env (after_operands env u0)}"
  by (auto simp: assert_defs Let_def split: prod.splits option.splits)

theorem assert_operands_evaluated_once_witness:
  "count_list (actions (ASSERT_TEMPLATE_EXT (demo_env 0) (demo_site OP_EQ) 0)) Eval_a = 1
   \<and> count_list (actions (ASSERT_TEMPLATE_EXT (demo_env 0) (demo_site OP_EQ) 0)) Eval_b = 1
   \<and> Call_dump ''t.c'' 7 ''int'' ''=='' ''x++'' ''y++'' 2 3 ''''
        \<in> set (actions (ASSERT_TEMPLATE_EXT (demo_env 0) (demo_site OP_EQ) 0))
   \<and> stored_L (demo_env 0) 0 = 2 \<and> stored_R (demo_env 0) 0 = 3
   \<and> user (ASSERT_TEMPLATE_EXT (demo_env 0) (demo_site OP_EQ) 0) = 2"
proof -
  have d: "Call_dump ''t.c'' 7 ''int'' ''=='' ''x++'' ''y++'' 2 3 ''''
        \<in> set (actions (ASSERT_TEMPLATE_EXT (demo_env 0) (demo_site OP_EQ) 0))"
    by (simp add: ASSERT_TEMPLATE_EXT_def demo_env_def demo_site_def)
  have u: "user (ASSERT_TEMPLATE_EXT (demo_env 0) (demo_site OP_EQ) 0) = 2"
    by (simp add: ASSERT_TEMPLATE_EXT_def demo_env_def demo_site_def)
  have l: "stored_L (demo_env 0) 0 = 2 \<and> stored_R (demo_env 0) 0 = 3"
    by (simp add: stored_L_def stored_R_def demo_env_def)
  from assert_operands_evaluated_once [of "demo_env 0" "demo_site OP_EQ" 0] d u l
  show ?thesis by blast
qed

subsection \<open>Break on failure\<close>

text \<open>
  Claim C9. For a failing assertion: when \<open>cutest_internal_break_on_failure\<close> answers non-zero,
  the last actions are the diagnostic, the query of the toggle, the breakpoint trap and the
  recording of the failure, in this order, and neither a trap nor a recording happens earlier;
  when it answers zero, no trap happens and the failure is recorded.
\<close>

theorem break_on_failure_order:
  assumes "compare_result env site u0 = Some c" and "\<not> op_holds (op site) c"
  shows "(cutest_internal_break_on_failure env \<noteq> 0 \<longrightarrow>
           (\<exists>pre d. actions (ASSERT_TEMPLATE_EXT env site u0)
                      = pre @ [d, Call_break_on_failure, DEBUGBREAK, Call_assert_failure]
                  \<and> is_dump d \<and> DEBUGBREAK \<notin> set pre \<and> Call_assert_failure \<notin> set pre))
       \<and> (cutest_internal_break_on_failure env = 0 \<longrightarrow>
           DEBUGBREAK \<notin> set (actions (ASSERT_TEMPLATE_EXT env site u0))
           \<and> Call_assert_failure \<in> set (actions (ASSERT_TEMPLATE_EXT env site u0)))"
  using assms by (auto simp: assert_defs split: prod.splits)

theorem break_on_failure_order_witness:
  "compare_result (demo_env 1) (demo_site OP_GE) 0 = Some (- 1)
   \<and> \<not> op_holds (op (demo_site OP_GE)) (- 1)
   \<and> actions (ASSERT_TEMPLATE_EXT (demo_env 1) (demo_site OP_GE) 0)
       = [Eval_a, Eval_b, Call_compare ''int'' 2 3,
          Call_dump ''t.c'' 7 ''int'' ''>='' ''x++'' ''y++'' 2 3 '''',
          Call_break_on_failure, DEBUGBREAK, Call_assert_failure]"
proof -
  have h: "compare_result (demo_env 1) (demo_site OP_GE) 0 = Some (- 1)"
    by (simp add: compare_result_def stored_L_def stored_R_def demo_env_def demo_site_def)
  have n: "\<not> op_holds (op (demo_site OP_GE)) (- 1)"
    by (simp add: demo_site_def)
  have e: "actions (ASSERT_TEMPLATE_EXT (demo_env 1) (demo_site OP_GE) 0)
       = [Eval_a, Eval_b, Call_compare ''int'' 2 3,
          Call_dump ''t.c'' 7 ''int'' ''>='' ''x++'' ''y++'' 2 3 '''',
          Call_break_on_failure, DEBUGBREAK, Call_assert_failure]"
    by (simp add: ASSERT_TEMPLATE_EXT_def demo_env_def demo_site_def)
  from break_on_failure_order [OF h n] h n e show ?thesis by blast
qed

section \<open>Argument counting and parameterized cases\<close>

subsection \<open>What the counting macro yields\<close>

lemma countdown16_nth:
  "k < 17 \<Longrightarrow> map Lit [16, 15, 14, 13, 12, 11, 10, 9, 8, 7, 6, 5, 4, 3, 2, 1, 0::nat] ! k = Lit (16 - k)"
proof -
  assume k: "k < 17"
  have "[16, 15, 14, 13, 12, 11, 10, 9, 8, 7, 6, 5, 4, 3, 2, 1, 0::nat] = map (\<lambda>j. 16 - j) [0..<17]"
    by code_simp
  then have "map Lit [16, 15, 14, 13, 12, 11, 10, 9, 8, 7, 6, 5, 4, 3, 2, 1, 0::nat] ! k
             = map Lit (map (\<lambda>j. 16 - j) [0..<17]) ! k"
    by (rule arg_cong)
  also have "\<dots> = Lit (16 - k)"
    using k by (simp del: upt_Suc)
  finally show ?thesis .
qed

lemma countdown15_nth:
  "k < 16 \<Longrightarrow> map Lit [15, 14, 13, 12, 11, 10, 9, 8, 7, 6, 5, 4, 3, 2, 1, 0::nat] ! k = Lit (15 - k)"
proof -
  assume k: "k < 16"
  have "[15, 14, 13, 12, 11, 10, 9, 8, 7, 6, 5, 4, 3, 2, 1, 0::nat] = map (\<lambda>j. 15 - j) [0..<16]"
    by code_simp
  then have "map Lit [15, 14, 13, 12, 11, 10, 9, 8, 7, 6, 5, 4, 3, 2, 1, 0::nat] ! k
             = map Lit (map (\<lambda>j. 15 - j) [0..<16]) ! k"
    by (rule arg_cong)
  also have "\<dots> = Lit (15 - k)"
    using k by (simp del: upt_Suc)
  finally show ?thesis .
qed

text \<open>
  With the GNU extensions the macro counts zero to sixteen arguments; held to ISO C it counts
  one to sixteen and takes an empty list for one argument; the Microsoft branch counts one to
  fifteen and takes an empty list for one argument.
\<close>

lemma TEST_ARG_COUNT_Gnu:
  assumes "length va \<le> 16"
  shows "TEST_ARG_COUNT Gnu va = Some (Lit (length va))"
proof -
  have "(Lit 0 # map Arg va @ map Lit [16, 15, 14, 13, 12, 11, 10, 9, 8, 7, 6, 5, 4, 3, 2, 1, 0::nat]) ! 17
        = map Lit [16, 15, 14, 13, 12, 11, 10, 9, 8, 7, 6, 5, 4, 3, 2, 1, 0::nat] ! (16 - length va)"
    using assms by (simp add: nth_append del: list.map)
  also have "\<dots> = Lit (16 - (16 - length va))"
    using assms by (intro countdown16_nth) simp
  finally show ?thesis
    using assms by (simp add: TEST_ARG_COUNT_def TEST_INTERNAL_GET_ARG_COUNT_PRIVATE_def del: list.map)
qed

lemma TEST_ARG_COUNT_Iso:
  assumes "va \<noteq> []" and "length va \<le> 16"
  shows "TEST_ARG_COUNT Iso va = Some (Lit (length va))"
proof -
  have "(Lit 0 # map Arg va @ map Lit [16, 15, 14, 13, 12, 11, 10, 9, 8, 7, 6, 5, 4, 3, 2, 1, 0::nat]) ! 17
        = map Lit [16, 15, 14, 13, 12, 11, 10, 9, 8, 7, 6, 5, 4, 3, 2, 1, 0::nat] ! (16 - length va)"
    using assms by (simp add: nth_append del: list.map)
  also have "\<dots> = Lit (16 - (16 - length va))"
    using assms by (intro countdown16_nth) simp
  finally show ?thesis
    using assms
    by (simp add: TEST_ARG_COUNT_def TEST_INTERNAL_GET_ARG_COUNT_PRIVATE_def behind_kept_comma_def
        del: list.map)
qed

lemma TEST_ARG_COUNT_Microsoft:
  assumes "va \<noteq> []" and "length va \<le> 15"
  shows "TEST_ARG_COUNT Microsoft va = Some (Lit (length va))"
proof -
  have "(Unused # map Arg va @ map Lit [15, 14, 13, 12, 11, 10, 9, 8, 7, 6, 5, 4, 3, 2, 1, 0::nat]) ! 16
        = map Lit [15, 14, 13, 12, 11, 10, 9, 8, 7, 6, 5, 4, 3, 2, 1, 0::nat] ! (15 - length va)"
    using assms by (simp add: nth_append del: list.map)
  also have "\<dots> = Lit (15 - (15 - length va))"
    using assms by (intro countdown15_nth) simp
  finally show ?thesis
    using assms
    by (simp add: TEST_ARG_COUNT_def TEST_INTERNAL_GET_ARG_COUNT_PRIVATE_def behind_kept_comma_def
        del: list.map)
qed

lemma TEST_ARG_COUNT_empty:
  "TEST_ARG_COUNT Gnu [] = Some (Lit 0)"
  "TEST_ARG_COUNT Iso [] = Some (Lit 1)"
  "TEST_ARG_COUNT Microsoft [] = Some (Lit 1)"
  by (simp_all add: TEST_ARG_COUNT_def TEST_INTERNAL_GET_ARG_COUNT_PRIVATE_def
      behind_kept_comma_def)

text \<open>
  Past its range the macro expands to one of the caller's own arguments: the seventeenth, or
  the sixteenth in the Microsoft branch.
\<close>

lemma TEST_ARG_COUNT_beyond:
  "16 < length va \<Longrightarrow> TEST_ARG_COUNT Gnu va = Some (Arg (va ! 16))"
  "16 < length va \<Longrightarrow> TEST_ARG_COUNT Iso va = Some (Arg (va ! 16))"
  "15 < length va \<Longrightarrow> TEST_ARG_COUNT Microsoft va = Some (Arg (va ! 15))"
  by (auto simp: TEST_ARG_COUNT_def TEST_INTERNAL_GET_ARG_COUNT_PRIVATE_def behind_kept_comma_def
      nth_append)

text \<open>The three assertions of the repository's test \<open>feature_arg_count.c\<close>.\<close>

lemma feature_arg_count:
  "TEST_ARG_COUNT pp [''1'', ''2''] = Some (Lit 2)"
  "TEST_ARG_COUNT pp [''3'', ''4'', ''5''] = Some (Lit 3)"
  "TEST_ARG_COUNT pp [''{ 6'', ''7 }''] = Some (Lit 2)"
  by (cases pp; simp add: TEST_ARG_COUNT_def TEST_INTERNAL_GET_ARG_COUNT_PRIVATE_def
      behind_kept_comma_def)+

subsection \<open>The registration loop\<close>

lemma register_loop_fits:
  assumes "number_of_parameterized_data P \<le> length (s_tests st)" and "i \<le> number_of_parameterized_data P"
  shows "register_loop P cb i st =
           Inr \<lparr>s_tests = take i (s_tests st)
                    @ map (parameterized_case P cb) [i..<number_of_parameterized_data P]
                    @ drop (number_of_parameterized_data P) (s_tests st),
                register_calls = register_calls st
                    @ map (parameterized_case P cb) [i..<number_of_parameterized_data P]\<rparr>"
  using assms
proof (induction P cb i st rule: register_loop.induct)
  case (1 P cb i st)
  let ?N = "number_of_parameterized_data P"
  show ?case
  proof (cases "i < ?N")
    case False
    with "1.prems" have "i = ?N" by simp
    then show ?thesis by (subst register_loop.simps) simp
  next
    case True
    with "1.prems" have il: "i < length (s_tests st)" by simp
    let ?st' = "\<lparr>s_tests = (s_tests st)[i := parameterized_case P cb i],
                 register_calls = register_calls st @ [parameterized_case P cb i]\<rparr>"
    have ih: "register_loop P cb (Suc i) ?st' =
           Inr \<lparr>s_tests = take (Suc i) (s_tests ?st')
                    @ map (parameterized_case P cb) [Suc i..<?N]
                    @ drop ?N (s_tests ?st'),
                register_calls = register_calls ?st'
                    @ map (parameterized_case P cb) [Suc i..<?N]\<rparr>"
      using "1.IH" [OF True il] "1.prems" True by simp
    have t: "take (Suc i) ((s_tests st)[i := parameterized_case P cb i])
               = take i (s_tests st) @ [parameterized_case P cb i]"
      using il by (simp add: take_Suc_conv_app_nth)
    have d: "drop ?N ((s_tests st)[i := parameterized_case P cb i]) = drop ?N (s_tests st)"
      using True by simp
    have u: "[i..<?N] = i # [Suc i..<?N]"
      using True by (simp add: upt_conv_Cons)
    show ?thesis
      using True il ih by (simp add: register_loop.simps [of P cb i st] t d u)
  qed
qed

lemma register_loop_overflow:
  assumes "length (s_tests st) < number_of_parameterized_data P" and "i \<le> length (s_tests st)"
  shows "register_loop P cb i st = Inl (Store_out_of_bounds (length (s_tests st)))"
  using assms
proof (induction P cb i st rule: register_loop.induct)
  case (1 P cb i st)
  show ?case
  proof (cases "i < length (s_tests st)")
    case True
    with "1.prems" have iN: "i < number_of_parameterized_data P" by simp
    have "register_loop P cb (Suc i)
            \<lparr>s_tests = (s_tests st)[i := parameterized_case P cb i],
             register_calls = register_calls st @ [parameterized_case P cb i]\<rparr>
          = Inl (Store_out_of_bounds (length (s_tests st)))"
      using "1.IH" [OF iN True] "1.prems" True by simp
    then show ?thesis using True iN by (simp add: register_loop.simps [of P cb i st])
  next
    case False
    with "1.prems" have "i = length (s_tests st)" by simp
    then show ?thesis using "1.prems" by (subst register_loop.simps) simp
  qed
qed

lemma register_fits:
  assumes "s_tests_size P = Some cap" and "number_of_parameterized_data P \<le> cap"
  shows "cutest_usertest_parameterized_register P cb =
           Inr \<lparr>s_tests = map (parameterized_case P cb) [0..<number_of_parameterized_data P]
                            @ replicate (cap - number_of_parameterized_data P) zero_case,
                register_calls = map (parameterized_case P cb) [0..<number_of_parameterized_data P]\<rparr>"
  using assms register_loop_fits [of P "\<lparr>s_tests = replicate cap zero_case, register_calls = []\<rparr>" 0 cb]
  by (simp add: cutest_usertest_parameterized_register_def)

lemma register_overflows:
  assumes "s_tests_size P = Some cap" and "cap < number_of_parameterized_data P"
  shows "cutest_usertest_parameterized_register P cb = Inl (Store_out_of_bounds cap)"
  using assms register_loop_overflow [of "\<lparr>s_tests = replicate cap zero_case, register_calls = []\<rparr>" P 0 cb]
  by (simp add: cutest_usertest_parameterized_register_def)

text \<open>
  When \<open>s_tests\<close> has room, a body run on the \<open>i\<close>-th descriptor reads element \<open>i\<close> of the
  parameter array through \<open>TEST_GET_PARAM()\<close>.
\<close>

lemma observed_parameterized_case:
  assumes "mem (userdata_addr P) = Some (s_parameterized_userdata P)"
    and "i < number_of_parameterized_data P"
  shows "observed_param mem (parameterized_case P cb i) = Some (s_parameterized_userdata P ! i)"
  using assms
  by (simp add: observed_param_def parameterized_case_def TEST_GET_PARAM_def
      number_of_parameterized_data_def)

text \<open>
  The initializer of \<open>TEST_P\<close> calls the registration function once: the first run records
  one call, a second run records no further one.
\<close>

lemma interface_once:
  "cutest_usertest_interface P cb test_p_initial
     = \<lparr>s_token = 1, registrations = [cutest_usertest_parameterized_register P cb]\<rparr>"
  "registrations (cutest_usertest_interface P cb (cutest_usertest_interface P cb test_p_initial))
     = [cutest_usertest_parameterized_register P cb]"
  by (simp_all add: cutest_usertest_interface_def test_p_initial_def)

subsection \<open>The size of \<open>s_tests\<close> is not the number of elements\<close>

text \<open>
  Claim C10 fails on the code at \<open>TEST_PARAMETERIZED_DEFINE(foo, str, char, "abc")\<close>, with
  every preprocessor: the value list is one argument, so \<open>TEST_ARG_COUNT\<close> is 1 and \<open>s_tests\<close>
  has one element, while the string literal gives \<open>s_parameterized_userdata\<close> four elements.
  The count is smaller than the element count, and the second turn of the registration loop
  stores to \<open>s_tests[1]\<close>, past the end of the array.
\<close>

theorem string_literal_overflows_s_tests:
  "TEST_ARG_COUNT pp (pd_va_args (abc_param pp)) = Some (Lit 1)
   \<and> s_tests_size (abc_param pp) = Some 1
   \<and> number_of_parameterized_data (abc_param pp) = 4
   \<and> cutest_usertest_parameterized_register (abc_param pp) cb = Inl (Store_out_of_bounds 1)"
proof -
  have c: "TEST_ARG_COUNT pp (pd_va_args (abc_param pp)) = Some (Lit 1)"
    by (cases pp) (simp_all add: abc_param_def TEST_ARG_COUNT_def
        TEST_INTERNAL_GET_ARG_COUNT_PRIVATE_def behind_kept_comma_def)
  have sz: "s_tests_size (abc_param pp) = Some 1"
    using c by (simp add: s_tests_size_def) (simp add: abc_param_def)
  have n: "number_of_parameterized_data (abc_param pp) = 4"
    by (simp add: number_of_parameterized_data_def abc_param_def)
  have "cutest_usertest_parameterized_register (abc_param pp) cb = Inl (Store_out_of_bounds 1)"
    by (rule register_overflows [OF sz]) (simp add: n)
  with c sz n show ?thesis by simp
qed

subsection \<open>Expansion of a parameterized case\<close>

text \<open>
  Claim C2 fails on the code at
  \<open>TEST_PARAMETERIZED_DEFINE(foo, many, int, 10, 11, ..., 24, 2, 3)\<close>, a parameter array of
  seventeen values, with every preprocessor: \<open>TEST_ARG_COUNT\<close> expands to the seventeenth
  argument, 3 (to the sixteenth, 2, in the Microsoft branch), so \<open>s_tests\<close> has three (two)
  elements; the one call of the registration function that the initializer of \<open>TEST_P\<close> makes
  stores the fourth (third) descriptor past the end of \<open>s_tests\<close> instead of synthesizing
  seventeen descriptors in it.
\<close>

theorem seventeen_values_overflow_s_tests:
  "number_of_parameterized_data (seventeen_values pp) = 17
   \<and> s_tests_size (seventeen_values pp) = Some (if pp = Microsoft then 2 else 3)
   \<and> registrations (cutest_usertest_interface (seventeen_values pp) cb test_p_initial)
       = [Inl (Store_out_of_bounds (if pp = Microsoft then 2 else 3))]"
proof -
  have c: "TEST_ARG_COUNT pp (pd_va_args (seventeen_values pp))
             = Some (Arg (Number (if pp = Microsoft then 2 else 3)))"
    by (cases pp) (simp_all add: seventeen_values_def TEST_ARG_COUNT_def
        TEST_INTERNAL_GET_ARG_COUNT_PRIVATE_def behind_kept_comma_def)
  have sz: "s_tests_size (seventeen_values pp) = Some (if pp = Microsoft then 2 else 3)"
    unfolding s_tests_size_def seventeen_values_def
    by (simp only: parameterized_define.simps c [unfolded seventeen_values_def parameterized_define.simps]
        option.case pp_arg.case token_value.simps)
  have n: "number_of_parameterized_data (seventeen_values pp) = 17"
    by (simp add: number_of_parameterized_data_def seventeen_values_def)
  have "cutest_usertest_parameterized_register (seventeen_values pp) cb
          = Inl (Store_out_of_bounds (if pp = Microsoft then 2 else 3))"
    by (rule register_overflows [OF sz]) (simp add: n)
  with n sz show ?thesis by (simp add: interface_once(1))
qed

section \<open>Properties of the registries\<close>

subsection \<open>Traversal and ordering\<close>

lemma inorder_rebalance_left [simp]:
  "in_order_traverse (rebalance_left c l x r) = in_order_traverse l @ x # in_order_traverse r"
  by (induction c l x r rule: rebalance_left.induct) simp_all

lemma inorder_rebalance_right [simp]:
  "in_order_traverse (rebalance_right c l x r) = in_order_traverse l @ x # in_order_traverse r"
  by (induction c l x r rule: rebalance_right.induct) simp_all

lemma inorder_blacken_root [simp]: "in_order_traverse (blacken_root t) = in_order_traverse t"
  by (cases t) simp_all

lemma ordered_iff_sorted:
  "ordered key t \<longleftrightarrow> sorted_wrt (\<lambda>u v. key u < key v) (in_order_traverse t)"
  by (induction t) (auto simp: sorted_wrt_append intro: less_trans)

lemma set_link_node:
  "link_node key d t = Some t' \<Longrightarrow> set (in_order_traverse t') = insert d (set (in_order_traverse t))"
  by (induction t arbitrary: t') (auto split: if_splits option.splits)

lemma ordered_link_node:
  "link_node key d t = Some t' \<Longrightarrow> ordered key t \<Longrightarrow> ordered key t'"
proof (induction t arbitrary: t')
  case Map_empty
  then show ?case by auto
next
  case (Map_node c l x r)
  show ?case
  proof (cases "key d < key x")
    case True
    with Map_node.prems obtain l' where l': "link_node key d l = Some l'"
      and t': "t' = rebalance_left c l' x r"
      by (auto split: option.splits)
    have "ordered key l'" using Map_node.IH(1) [OF l'] Map_node.prems(2) by simp
    moreover have "set (in_order_traverse l') = insert d (set (in_order_traverse l))"
      using l' by (rule set_link_node)
    ultimately have "ordered key (Map_node c l' x r)"
      using Map_node.prems(2) True by simp
    then show ?thesis unfolding t' by (simp add: ordered_iff_sorted)
  next
    case False
    with Map_node.prems obtain r' where r': "link_node key d r = Some r'"
      and t': "t' = rebalance_right c l x r'" and gt: "key x < key d"
      by (auto split: option.splits if_splits)
    have "ordered key r'" using Map_node.IH(2) [OF r'] Map_node.prems(2) by simp
    moreover have "set (in_order_traverse r') = insert d (set (in_order_traverse r))"
      using r' by (rule set_link_node)
    ultimately have "ordered key (Map_node c l x r')"
      using Map_node.prems(2) gt by simp
    then show ?thesis unfolding t' by (simp add: ordered_iff_sorted)
  qed
qed

lemma link_node_None_iff:
  "ordered key t \<Longrightarrow> link_node key d t = None \<longleftrightarrow> key d \<in> key ` set (in_order_traverse t)"
  by (induction t) (auto split: option.splits)

lemma find_member:
  "ordered key t \<Longrightarrow> x \<in> set (in_order_traverse t) \<Longrightarrow> cutest_map_find key (key x) t = Some x"
  by (induction t) (auto dest: less_asym)

subsection \<open>The key order is the byte-wise comparison\<close>

lemma strcmp_less: "strcmp xs ys < 0 \<longleftrightarrow> xs < ys"
  by (induction xs ys rule: strcmp.induct) (auto simp: less_char_def)

lemma strcmp_eq: "strcmp xs ys = 0 \<longleftrightarrow> xs = ys"
  by (induction xs ys rule: strcmp.induct) (auto simp: less_char_def)

lemma cmp_case_less: "cmp_case u v < 0 \<longleftrightarrow> case_key u < case_key v"
  by (auto simp: cmp_case_def case_key_def strcmp_less strcmp_eq less_prod_def)

lemma cmp_case_eq: "cmp_case u v = 0 \<longleftrightarrow> case_key u = case_key v"
  by (auto simp: cmp_case_def case_key_def strcmp_eq)

subsection \<open>Registering cases\<close>

lemma register_case_new:
  assumes "ordered case_key t" and "case_key d \<notin> case_key ` set (in_order_traverse t)"
  shows "\<exists>t'. cutest_register_case d t = (None, t') \<and> ordered case_key t'
            \<and> set (in_order_traverse t') = insert d (set (in_order_traverse t))"
proof -
  from assms obtain u where u: "link_node case_key d t = Some u"
    using link_node_None_iff [of case_key t d] by (cases "link_node case_key d t") auto
  have "ordered case_key (blacken_root u)"
    using ordered_link_node [OF u assms(1)] by (simp add: ordered_iff_sorted)
  moreover have "set (in_order_traverse (blacken_root u)) = insert d (set (in_order_traverse t))"
    using set_link_node [OF u] by simp
  moreover have "cutest_register_case d t = (None, blacken_root u)"
    using u by (simp add: cutest_register_case_def cutest_map_insert_def)
  ultimately show ?thesis by blast
qed

lemma register_case_duplicate:
  assumes "ordered case_key t" and "case_key d \<in> case_key ` set (in_order_traverse t)"
  shows "cutest_register_case d t = (Some DuplicateKey, t)"
  using assms link_node_None_iff [of case_key t d]
  by (simp add: cutest_register_case_def cutest_map_insert_def)

lemma register_cases_distinct:
  assumes "ordered case_key t0" and "distinct (map case_key ds)"
    and "case_key ` set ds \<inter> case_key ` set (in_order_traverse t0) = {}"
  shows "\<exists>t. register_cases ds t0 = Inr t \<and> ordered case_key t
           \<and> set (in_order_traverse t) = set ds \<union> set (in_order_traverse t0)"
  using assms
proof (induction ds arbitrary: t0)
  case Nil
  then show ?case by simp
next
  case (Cons d ds)
  from Cons.prems have fresh: "case_key d \<notin> case_key ` set (in_order_traverse t0)" by auto
  from register_case_new [OF Cons.prems(1) fresh] obtain t1 where
    r: "cutest_register_case d t0 = (None, t1)" and o: "ordered case_key t1"
    and s: "set (in_order_traverse t1) = insert d (set (in_order_traverse t0))" by blast
  have dist: "distinct (map case_key ds)" using Cons.prems(2) by simp
  have disj: "case_key ` set ds \<inter> case_key ` set (in_order_traverse t1) = {}"
    using Cons.prems(2,3) unfolding s by auto
  from Cons.IH [OF o dist disj] obtain t where
    "register_cases ds t1 = Inr t" "ordered case_key t"
    "set (in_order_traverse t) = set ds \<union> set (in_order_traverse t1)" by blast
  then show ?case using r s by auto
qed

lemma register_cases_ordered:
  "register_cases ds t0 = Inr t \<Longrightarrow> ordered case_key t0 \<Longrightarrow> ordered case_key t"
proof (induction ds arbitrary: t0)
  case Nil
  then show ?case by simp
next
  case (Cons d ds)
  show ?case
  proof (cases "case_key d \<in> case_key ` set (in_order_traverse t0)")
    case True
    then show ?thesis
      using Cons.prems register_case_duplicate [OF Cons.prems(2) True] by simp
  next
    case False
    from register_case_new [OF Cons.prems(2) False] obtain t1 where
      "cutest_register_case d t0 = (None, t1)" "ordered case_key t1" by blast
    then show ?thesis using Cons.prems(1) Cons.IH [of t1] by simp
  qed
qed

lemma strict_sorted_keys:
  fixes key :: "'d \<Rightarrow> 'k::linorder"
  shows "sorted_wrt (\<lambda>u v. key u < key v) xs \<longleftrightarrow> sorted (map key xs) \<and> distinct (map key xs)"
proof -
  have "sorted_wrt (\<lambda>u v. key u < key v) xs = sorted_wrt (<) (map key xs)"
    by (simp only: sorted_wrt_map)
  then show ?thesis by (simp only: strict_sorted_iff)
qed

lemma sorted_keys_unique:
  fixes key :: "'d \<Rightarrow> 'k::linorder"
  assumes "sorted_wrt (\<lambda>u v. key u < key v) xs" and "sorted_wrt (\<lambda>u v. key u < key v) ys"
    and "set xs = set ys" and "inj_on key (set xs)"
  shows "xs = ys"
proof -
  have "map key xs = map key ys"
  proof (rule sorted_distinct_set_unique)
    show "sorted (map key xs)" "distinct (map key xs)"
      using assms(1) by (simp_all only: strict_sorted_keys)
    show "sorted (map key ys)" "distinct (map key ys)"
      using assms(2) by (simp_all only: strict_sorted_keys)
    show "set (map key xs) = set (map key ys)"
      using assms(3) by simp
  qed
  moreover have "inj_on key (set xs \<union> set ys)"
    using assms(3,4) by simp
  ultimately show ?thesis by (simp only: inj_on_map_eq_map)
qed

text \<open>
  Claim C5. For every sequence of case descriptors with pairwise distinct keys
  \<open>(fixture_name, case_name, param_idx)\<close>, registering them in order into the empty registry
  succeeds, and the in-order traversal of the resulting registry yields exactly the
  registered descriptors, each once, sorted by the byte-wise lexicographic order of their
  keys: it is the list of the descriptors sorted by key.
\<close>

theorem registry_traversal_sorted:
  assumes "distinct (map case_key ds)"
  shows "\<exists>t. register_cases ds Map_empty = Inr t
           \<and> set (in_order_traverse t) = set ds
           \<and> length (in_order_traverse t) = length ds
           \<and> sorted_wrt (\<lambda>u v. cmp_case u v < 0) (in_order_traverse t)
           \<and> in_order_traverse t = sort_key case_key ds"
proof -
  from register_cases_distinct [of Map_empty ds] assms obtain t where
    r: "register_cases ds Map_empty = Inr t" and o: "ordered case_key t"
    and s: "set (in_order_traverse t) = set ds" by auto
  have st: "sorted_wrt (\<lambda>u v. case_key u < case_key v) (in_order_traverse t)"
    using o by (simp add: ordered_iff_sorted)
  have inj: "inj_on case_key (set ds)"
    using assms by (simp add: distinct_map)
  have "sorted (map case_key (sort_key case_key ds))"
    by (rule sorted_sort_key)
  moreover have "distinct (map case_key (sort_key case_key ds))"
    using assms by (simp add: distinct_map)
  ultimately have ss: "sorted_wrt (\<lambda>u v. case_key u < case_key v) (sort_key case_key ds)"
    by (simp only: strict_sorted_keys)
  have e: "in_order_traverse t = sort_key case_key ds"
    using st ss s inj by (intro sorted_keys_unique [of case_key]) simp_all
  from r s st e show ?thesis by (auto simp: cmp_case_less)
qed

lemma demo_keys:
  "case_key foo_normal = (''foo'', ''normal'', 0)"
  "case_key (foo_param_case i) = (''foo'', ''param'', i)"
  "case_key Foo_self = (''Foo'', ''self'', 0)"
  by (simp_all add: foo_normal_def foo_param_case_def Foo_self_def case_key_def TEST_F_case_def
      TEST_case_def parameterized_case_def foo_param_def)

theorem registry_traversal_sorted_witness:
  "distinct (map case_key demo_cases)
   \<and> (\<exists>t. register_cases demo_cases Map_empty = Inr t
          \<and> in_order_traverse t = [Foo_self, foo_normal, foo_param_case 0, foo_param_case 1])"
proof -
  have d: "distinct (map case_key demo_cases)"
    by (simp add: demo_cases_def demo_keys)
  have so: "sort_key case_key demo_cases
        = [Foo_self, foo_normal, foo_param_case 0, foo_param_case 1]"
    by (simp add: demo_cases_def demo_keys less_eq_prod_def less_char_def)
  from registry_traversal_sorted [OF d] d show ?thesis
    unfolding so by blast
qed

text \<open>
  Claim C6. For every registry built by registrations and every descriptor whose key is
  already in it, \<open>cutest_register_case\<close> answers \<open>DuplicateKey\<close> and leaves the registry as it
  was; a start-up sequence that reaches such a registration fails at it.
\<close>

theorem duplicate_case_rejected:
  assumes "register_cases ds Map_empty = Inr t"
    and "case_key d \<in> case_key ` set (in_order_traverse t)"
  shows "cutest_register_case d t = (Some DuplicateKey, t)
       \<and> register_cases (d # rest) t = Inl DuplicateKey"
proof -
  have "ordered case_key t"
    using register_cases_ordered [OF assms(1)] by simp
  then have "cutest_register_case d t = (Some DuplicateKey, t)"
    using assms(2) by (rule register_case_duplicate)
  then show ?thesis by simp
qed

lemma two_cases_registered: "register_cases [foo_normal, Foo_self] Map_empty = Inr two_cases_table"
  by (simp add: cutest_register_case_def cutest_map_insert_def demo_keys two_cases_table_def
      less_char_def)

theorem duplicate_case_rejected_witness:
  "register_cases [foo_normal, Foo_self] Map_empty = Inr two_cases_table
   \<and> case_key foo_normal_again \<in> case_key ` set (in_order_traverse two_cases_table)
   \<and> foo_normal_again \<notin> set (in_order_traverse two_cases_table)
   \<and> cutest_register_case foo_normal_again two_cases_table = (Some DuplicateKey, two_cases_table)
   \<and> register_cases [foo_normal_again, foo_param_case 0] two_cases_table = Inl DuplicateKey"
proof -
  have k: "case_key foo_normal_again = case_key foo_normal"
    by (simp add: foo_normal_again_def TEST_case_def demo_keys) (simp add: case_key_def)
  have h: "case_key foo_normal_again \<in> case_key ` set (in_order_traverse two_cases_table)"
    unfolding k by (simp add: two_cases_table_def)
  have n: "foo_normal_again \<notin> set (in_order_traverse two_cases_table)"
    by (simp add: two_cases_table_def foo_normal_again_def foo_normal_def Foo_self_def
        TEST_case_def TEST_F_case_def)
  from duplicate_case_rejected [OF two_cases_registered h, of "[foo_param_case 0]"]
    two_cases_registered h n
  show ?thesis by blast
qed

subsection \<open>Registering types\<close>

lemma register_type_ordered:
  assumes "ordered type_name t"
  shows "ordered type_name (cutest_internal_register_type info t)"
proof (cases "link_node type_name info t")
  case None
  then show ?thesis
    using assms by (simp add: cutest_internal_register_type_def cutest_map_insert_def)
next
  case (Some u)
  have "ordered type_name (blacken_root u)"
    using ordered_link_node [OF Some assms] by (simp add: ordered_iff_sorted)
  then show ?thesis
    using Some by (simp add: cutest_internal_register_type_def cutest_map_insert_def)
qed

lemma register_types_ordered:
  "ordered type_name t \<Longrightarrow> ordered type_name (fold cutest_internal_register_type infos t)"
  by (induction infos arbitrary: t) (simp_all add: register_type_ordered)

lemma register_type_known:
  assumes "ordered type_name t" and "type_name info \<in> type_name ` set (in_order_traverse t)"
  shows "cutest_internal_register_type info t = t"
  using assms link_node_None_iff [of type_name t info]
  by (simp add: cutest_internal_register_type_def cutest_map_insert_def)

lemma register_type_new:
  assumes "ordered type_name t" and "type_name info \<notin> type_name ` set (in_order_traverse t)"
  shows "set (in_order_traverse (cutest_internal_register_type info t))
           = insert info (set (in_order_traverse t))"
proof -
  from assms obtain u where u: "link_node type_name info t = Some u"
    using link_node_None_iff [of type_name t info] by (cases "link_node type_name info t") auto
  show ?thesis
    using set_link_node [OF u] u
    by (simp add: cutest_internal_register_type_def cutest_map_insert_def)
qed

text \<open>
  Claim C7. After a type has been registered through \<open>TEST_REGISTER_TYPE_ONCE\<close>, running the
  same registration again changes neither the token nor the type table, and registering a
  descriptor with the same type name from another place (token still 0) leaves the type table
  equal; the lookup of the name after the second registration still yields the
  first-registered descriptor, with its compare and dump functions.
\<close>

theorem register_type_twice_noop:
  assumes "type_table = fold cutest_internal_register_type earlier Map_empty"
    and "first = TEST_REGISTER_TYPE_ONCE info (0, type_table)"
    and "type_name info2 = type_name info"
  shows "TEST_REGISTER_TYPE_ONCE info first = first
       \<and> cutest_internal_register_type info2 (snd first) = snd first
       \<and> TEST_REGISTER_TYPE_ONCE info2 (0, snd first) = (1, snd first)
       \<and> (type_name info \<notin> type_name ` set (in_order_traverse type_table) \<longrightarrow>
            cutest_map_find type_name (type_name info)
              (cutest_internal_register_type info2 (snd first)) = Some info)"
proof -
  have o: "ordered type_name type_table"
    unfolding assms(1) by (rule register_types_ordered) simp
  have f: "first = (1, cutest_internal_register_type info type_table)"
    using assms(2) by simp
  have o1: "ordered type_name (snd first)"
    unfolding f using o by (simp add: register_type_ordered)
  have m: "type_name info2 \<in> type_name ` set (in_order_traverse (snd first))"
  proof (cases "type_name info \<in> type_name ` set (in_order_traverse type_table)")
    case True
    then show ?thesis
      unfolding f using register_type_known [OF o True] assms(3) by simp
  next
    case False
    then show ?thesis
      unfolding f using register_type_new [OF o False] assms(3) by simp
  qed
  have same: "cutest_internal_register_type info2 (snd first) = snd first"
    using o1 m by (rule register_type_known)
  have again: "TEST_REGISTER_TYPE_ONCE info first = first"
    unfolding f by simp
  have other: "TEST_REGISTER_TYPE_ONCE info2 (0, snd first) = (1, snd first)"
    using same by simp
  have eff: "cutest_map_find type_name (type_name info)
              (cutest_internal_register_type info2 (snd first)) = Some info"
    if new: "type_name info \<notin> type_name ` set (in_order_traverse type_table)"
  proof -
    have "info \<in> set (in_order_traverse (snd first))"
      unfolding f using register_type_new [OF o new] by simp
    then show ?thesis
      unfolding same using o1 by (simp add: find_member)
  qed
  from again same other eff show ?thesis by blast
qed

theorem register_type_twice_noop_witness:
  "TEST_REGISTER_TYPE_ONCE foo_t_first (0, Map_empty)
     = (1, Map_node RB_BLACK Map_empty foo_t_first Map_empty)
   \<and> type_name foo_t_second = type_name foo_t_first \<and> foo_t_second \<noteq> foo_t_first
   \<and> TEST_REGISTER_TYPE_ONCE foo_t_second (0, Map_node RB_BLACK Map_empty foo_t_first Map_empty)
     = (1, Map_node RB_BLACK Map_empty foo_t_first Map_empty)
   \<and> cutest_map_find type_name ''foo_t''
        (cutest_internal_register_type foo_t_second
           (Map_node RB_BLACK Map_empty foo_t_first Map_empty)) = Some foo_t_first"
proof -
  have h1: "(Map_empty :: (string, string) cutest_type_info cutest_map)
              = fold cutest_internal_register_type [] Map_empty" by simp
  have h2: "TEST_REGISTER_TYPE_ONCE foo_t_first (0, Map_empty)
              = (1, Map_node RB_BLACK Map_empty foo_t_first Map_empty)"
    by (simp add: cutest_internal_register_type_def cutest_map_insert_def)
  have h3: "type_name foo_t_second = type_name foo_t_first"
    by (simp add: foo_t_first_def foo_t_second_def)
  have ne: "foo_t_second \<noteq> foo_t_first"
    by (simp add: foo_t_first_def foo_t_second_def)
  have nm: "type_name foo_t_first = ''foo_t''"
    by (simp add: foo_t_first_def)
  have fresh: "''foo_t''
      \<notin> type_name ` set (in_order_traverse (Map_empty :: (string, string) cutest_type_info cutest_map))"
    by simp
  note th = register_type_twice_noop [OF h1 h2 [symmetric] h3, unfolded snd_conv nm]
  from th fresh h2 h3 ne show ?thesis by blast
qed

end
